theory Spec2Isabelle
  imports Complex_Main "HOL-Library.Sublist" "HOL-Library.Multiset"
begin

section \<open>JavaScript values used by the game\<close>

text \<open>
  The game is the React component \<open>App\<close> of App.js. The repository holds two versions
  of the file, which draw different scenes; the constants, the state and the functions
  modelled here are the same in both, up to the wording of the alert.

  A JavaScript string is modelled as a \<open>string\<close>, the list of its code units. Every
  string of the program (the vocabulary, the keyboard's alphabet, the placeholder) has
  code units below 256 only, so one code unit is one \<open>char\<close>; the last letter of the
  29th word is U+00C9, written \<open>CHR 0xC9\<close>. JavaScript has no character type: a letter
  is a string, and \<open>guessedLetters\<close> is an array of strings.
\<close>

text \<open>\<open>s.split('')\<close>: the array of the one-unit strings of \<open>s\<close>.\<close>

definition split_chars :: "string \<Rightarrow> string list" where
  "split_chars s = map (\<lambda>c. [c]) s"

text \<open>\<open>xs.join(sep)\<close>.\<close>

fun join :: "string \<Rightarrow> string list \<Rightarrow> string" where
  "join sep [] = []"
| "join sep [x] = x"
| "join sep (x # y # ys) = x @ sep @ join sep (y # ys)"

text \<open>\<open>s.includes(t)\<close> of a string: \<open>t\<close> occurs in \<open>s\<close> as a contiguous substring.\<close>

fun str_includes :: "string \<Rightarrow> string \<Rightarrow> bool" where
  "str_includes [] t = (t = [])"
| "str_includes (c # cs) t = (prefix t (c # cs) \<or> str_includes cs t)"

text \<open>
  \<open>[...new Set(xs)]\<close>: the elements of \<open>xs\<close> in the order of their first occurrence,
  each once.
\<close>

definition new_Set :: "'a list \<Rightarrow> 'a list" where
  "new_Set xs = foldl (\<lambda>acc x. if x \<in> set acc then acc else acc @ [x]) [] xs"

section \<open>Constants of App.js\<close>

definition WORDS :: "string list" where
  "WORDS =
    [''ZAGUEIRO'', ''GOLEIRO'', ''ATAQUE'', ''LATERAL'', ''CHUTEIRA'',
     ''TRAVE'', ''GOL'', ''PENALTI'', ''ESCANTEIO'', ''JUIZ'',
     ''CAMISA'', ''ARQUIBANCADA'', ''GRAMADO'', ''BANDERA'', ''FALTA'',
     ''ESCUDO'', ''CAPITAO'', ''CONVOCACAO'', ''COPINHA'', ''MARACANA'',
     ''HEXACAMPEAO'', ''TORCEDOR'', ''VITORIA'', ''EMPATE'', ''DERROTA'',
     ''CARRINHO'', ''PASSES'', ''TITE'', ''PEL'' @ [CHR 0xC9], ''NEYMAR'']"

definition MAX_ATTEMPTS :: nat where
  "MAX_ATTEMPTS = 6"

text \<open>The keys of the on-screen keyboard, \<open>'ABCDEFGHIJKLMNOPQRSTUVWXYZ'.split('')\<close>.\<close>

definition ALPHABET :: "string list" where
  "ALPHABET = split_chars ''ABCDEFGHIJKLMNOPQRSTUVWXYZ''"

section \<open>The state of the component App\<close>

datatype status = playing | won | lost

text \<open>The four \<open>useState\<close> cells of \<open>App\<close>.\<close>

record state =
  word :: string
  guessedLetters :: "string list"
  attempts :: nat
  gameStatus :: status

text \<open>The values the \<open>useState\<close> calls start from, before the first round.\<close>

definition initialState :: state where
  "initialState = \<lparr>word = [], guessedLetters = [], attempts = 0, gameStatus = playing\<rparr>"

text \<open>
  The only output besides the rendered view: the \<open>Alert.alert\<close> of a lost round. Its
  title and the fixed part of its message are constants; what it carries is the word.
\<close>

datatype alert = CartaoVermelho string

section \<open>The operations\<close>

subsection \<open>Double-precision numbers\<close>

text \<open>
  A JavaScript number is an IEEE 754 double. A finite double is modelled as the real
  number it stands for, and an operation on doubles as the exact operation on the reals
  followed by rounding to the nearest double.
\<close>

text \<open>Rounding to the nearest integer, a tie going to the even one.\<close>

definition round_half_even :: "real \<Rightarrow> int" where
  "round_half_even y =
    (let n = \<lfloor>y\<rfloor>; d = y - of_int n in
     if d < 1/2 then n else if 1/2 < d then n + 1 else if even n then n else n + 1)"

text \<open>
  The distance between neighbouring doubles around \<open>x\<close>: 52 binary places below the
  leading bit, and never below the exponent \<open>- 1022\<close> of the subnormal numbers.
\<close>

definition ulp :: "real \<Rightarrow> real" where
  "ulp x = 2 powr of_int (max \<lfloor>log 2 \<bar>x\<bar>\<rfloor> (- 1022) - 52)"

text \<open>
  The double that an arithmetic operation returns for the exact result \<open>x\<close>: the nearest
  double, a tie going to the even significand (magnitudes below \<open>2 ^ 1024\<close>, so
  without overflow).
\<close>

definition round_double :: "real \<Rightarrow> real" where
  "round_double x = (if x = 0 then 0 else of_int (round_half_even (x / ulp x)) * ulp x)"

text \<open>The real numbers that are finite doubles.\<close>

definition is_double :: "real \<Rightarrow> bool" where
  "is_double x \<longleftrightarrow> \<bar>x\<bar> < 2 ^ 1024 \<and> round_double x = x"

subsection \<open>Starting a round\<close>

text \<open>
  \<open>Math.floor(Math.random() * WORDS.length)\<close>, with the value \<open>r\<close> of \<open>Math.random()\<close>
  as a parameter: a double with \<open>0 \<le> r < 1\<close>. The product is a product of doubles
  (the length 30 is a double as it stands), so it is rounded; \<open>Math.floor\<close> of a double
  is exact.
\<close>

definition randomIndex :: "real \<Rightarrow> int" where
  "randomIndex r = \<lfloor>round_double (r * real (length WORDS))\<rfloor>"

text \<open>
  \<open>startNewGame\<close>. \<open>WORDS[randomIndex]\<close> is \<open>undefined\<close> outside the array, on which
  the next render (\<open>word.split\<close>) throws: that is the result \<open>None\<close>.
\<close>

definition startNewGame :: "real \<Rightarrow> state \<Rightarrow> state option" where
  "startNewGame r s =
    (let i = randomIndex r in
     if 0 \<le> i \<and> i < int (length WORDS)
     then Some (s\<lparr>word := WORDS ! nat i, guessedLetters := [], attempts := 0,
                  gameStatus := playing\<rparr>)
     else None)"

subsection \<open>Guessing\<close>

definition uniqueLetters :: "string \<Rightarrow> string list" where
  "uniqueLetters w = new_Set (split_chars w)"

definition hasWon :: "state \<Rightarrow> bool" where
  "hasWon s = list_all (\<lambda>letter. letter \<in> set (guessedLetters s)) (uniqueLetters (word s))"

text \<open>
  The effect that checks the status, run after every render in which \<open>guessedLetters\<close>,
  \<open>attempts\<close>, \<open>word\<close> or \<open>gameStatus\<close> has changed. It returns the state with the new
  status and the alerts it raised.
\<close>

definition statusEffect :: "state \<Rightarrow> state \<times> alert list" where
  "statusEffect s =
    (if word s = [] \<or> gameStatus s \<noteq> playing then (s, [])
     else if hasWon s then (s\<lparr>gameStatus := won\<rparr>, [])
     else if attempts s \<ge> MAX_ATTEMPTS
       then (s\<lparr>gameStatus := lost\<rparr>, [CartaoVermelho (word s)])
     else (s, []))"

text \<open>
  \<open>handleGuess\<close>: \<open>None\<close> is the early \<open>return\<close>, which sets no state (so nothing is
  rendered again and no effect runs); otherwise the state after both setters. The
  keyboard calls it with its keys, which are strings of one letter; the model takes any
  string, as the function does.
\<close>

definition handleGuess :: "string \<Rightarrow> state \<Rightarrow> state option" where
  "handleGuess letter s =
    (if gameStatus s \<noteq> playing \<or> letter \<in> set (guessedLetters s) then None
     else Some (s\<lparr>guessedLetters := guessedLetters s @ [letter],
                  attempts := (if \<not> str_includes (word s) letter
                               then attempts s + 1 else attempts s)\<rparr>))"

text \<open>
  One press of a key: \<open>handleGuess\<close>, then the render it causes and the status effect.
\<close>

definition submitGuess :: "string \<Rightarrow> state \<Rightarrow> state \<times> alert list" where
  "submitGuess letter s =
    (case handleGuess letter s of
       None \<Rightarrow> (s, [])
     | Some s' \<Rightarrow> statusEffect s')"

text \<open>
  One press of the restart button (and the effect run at mount): \<open>startNewGame\<close>, then
  the render it causes and the status effect.
\<close>

definition startNewRound :: "real \<Rightarrow> state \<Rightarrow> (state \<times> alert list) option" where
  "startNewRound r s =
    (case startNewGame r s of
       None \<Rightarrow> None
     | Some s' \<Rightarrow> Some (statusEffect s'))"

text \<open>A sequence of key presses, in order.\<close>

definition play :: "string list \<Rightarrow> state \<Rightarrow> state" where
  "play letters s = foldl (\<lambda>t letter. fst (submitGuess letter t)) s letters"

section \<open>The derived view\<close>

definition displayWord :: "state \<Rightarrow> string" where
  "displayWord s =
    join '' ''
      (map (\<lambda>letter. if letter \<in> set (guessedLetters s) then letter else ''_'')
        (split_chars (word s)))"

definition correctLetters :: "state \<Rightarrow> string list" where
  "correctLetters s = filter (\<lambda>letter. str_includes (word s) letter) (guessedLetters s)"

definition wrongLetters :: "state \<Rightarrow> string list" where
  "wrongLetters s = filter (\<lambda>letter. \<not> str_includes (word s) letter) (guessedLetters s)"

section \<open>The invariant of a round\<close>

text \<open>
  What holds of every state a round passes through (shown below for the state after
  \<open>startNewRound\<close> and kept by every \<open>submitGuess\<close>): the word is not empty, no letter
  was guessed twice, \<open>attempts\<close> counts the wrong letters, never beyond the maximum, and
  the status is the one the status effect derives.
\<close>

definition roundInvariant :: "state \<Rightarrow> bool" where
  "roundInvariant s \<longleftrightarrow>
     word s \<noteq> [] \<and>
     distinct (guessedLetters s) \<and>
     attempts s = length (wrongLetters s) \<and>
     attempts s \<le> MAX_ATTEMPTS \<and>
     (attempts s = MAX_ATTEMPTS \<longrightarrow> gameStatus s = lost) \<and>
     gameStatus s =
       (if hasWon s then won else if MAX_ATTEMPTS \<le> attempts s then lost else playing)"

section \<open>Facts about the JavaScript values\<close>

lemma str_includes_sublist: "str_includes s t \<longleftrightarrow> sublist t s"
  by (induction s) (auto simp: sublist_Cons_right)

lemma str_includes_letter [simp]: "str_includes s [c] \<longleftrightarrow> c \<in> set s"
  by (induction s) auto

lemma set_new_Set_aux:
  "set (foldl (\<lambda>acc x. if x \<in> set acc then acc else acc @ [x]) acc xs) = set acc \<union> set xs"
  by (induction xs arbitrary: acc) auto

lemma set_new_Set [simp]: "set (new_Set xs) = set xs"
  by (simp add: new_Set_def set_new_Set_aux)

lemma distinct_new_Set_aux:
  "distinct acc \<Longrightarrow> distinct (foldl (\<lambda>acc x. if x \<in> set acc then acc else acc @ [x]) acc xs)"
  by (induction xs arbitrary: acc) auto

lemma distinct_new_Set: "distinct (new_Set xs)"
  by (simp add: new_Set_def distinct_new_Set_aux)

lemma hasWon_iff: "hasWon s \<longleftrightarrow> (\<forall>c\<in>set (word s). [c] \<in> set (guessedLetters s))"
  by (auto simp: hasWon_def uniqueLetters_def split_chars_def list_all_iff)

lemma length_WORDS: "length WORDS = 30"
  by (simp add: WORDS_def)

lemma WORDS_nonempty: "w \<in> set WORDS \<Longrightarrow> w \<noteq> []"
  by (auto simp: WORDS_def)

section \<open>Facts about rounding to a double\<close>

lemma round_half_even_cases:
  "round_half_even y = \<lfloor>y\<rfloor> \<or> round_half_even y = \<lfloor>y\<rfloor> + 1"
  by (simp add: round_half_even_def Let_def)

lemma round_half_even_down: "y - of_int \<lfloor>y\<rfloor> < 1/2 \<Longrightarrow> round_half_even y = \<lfloor>y\<rfloor>"
  by (simp add: round_half_even_def Let_def)

lemma round_half_even_of_int [simp]: "round_half_even (of_int n) = n"
  by (simp add: round_half_even_def)

lemma round_half_even_ge: "of_int n \<le> y \<Longrightarrow> n \<le> round_half_even y"
proof -
  assume "of_int n \<le> y"
  then have "n \<le> \<lfloor>y\<rfloor>" by (simp add: le_floor_iff)
  with round_half_even_cases [of y] show ?thesis by linarith
qed

lemma round_half_even_le: "y \<le> of_int n \<Longrightarrow> round_half_even y \<le> n"
proof (cases "y = of_int n")
  case True
  then show ?thesis by simp
next
  case False
  assume "y \<le> of_int n"
  with False have "y < of_int n" by simp
  then have "\<lfloor>y\<rfloor> < n" by (simp add: floor_less_iff)
  with round_half_even_cases [of y] show ?thesis by linarith
qed

lemma round_half_even_less:
  assumes "y < of_int n - 1/2"
  shows "round_half_even y < n"
proof (cases "\<lfloor>y\<rfloor> = n - 1")
  case True
  then have "y - of_int \<lfloor>y\<rfloor> < 1/2" using assms by simp
  then have "round_half_even y = \<lfloor>y\<rfloor>" by (rule round_half_even_down)
  with True show ?thesis by simp
next
  case False
  from assms have "y < of_int n" by linarith
  then have "\<lfloor>y\<rfloor> < n" by (simp add: floor_less_iff)
  with False have "\<lfloor>y\<rfloor> + 1 < n" by linarith
  with round_half_even_cases [of y] show ?thesis by linarith
qed

lemma ulp_binade:
  assumes "2 powr of_int e \<le> \<bar>x\<bar>" and "\<bar>x\<bar> < 2 powr (of_int e + 1)"
  shows "ulp x = 2 powr of_int (max e (- 1022) - 52)"
proof -
  have "(0::real) < 2 powr of_int e" by simp
  with assms(1) have "0 < \<bar>x\<bar>" by linarith
  then have "\<lfloor>log 2 \<bar>x\<bar>\<rfloor> = e"
    using assms by (simp add: floor_log_eq_powr_iff)
  then show ?thesis by (simp add: ulp_def)
qed

lemma ulp_below_32:
  assumes "0 < x" and "x < 32"
  shows "\<exists>m\<ge>48. ulp x = 1 / 2 ^ m"
proof -
  have "x < 2 powr 5" using assms by simp
  then have "log 2 x < 5"
    using assms(1) by (simp add: log_less_iff)
  then have e: "\<lfloor>log 2 \<bar>x\<bar>\<rfloor> \<le> 4"
    using assms by (simp add: floor_le_iff)
  define j where "j = max \<lfloor>log 2 \<bar>x\<bar>\<rfloor> (- 1022) - 52"
  have j: "j \<le> - 48" using e by (simp add: j_def)
  have "ulp x = 2 powr of_int j" by (simp add: ulp_def j_def)
  also have "\<dots> = inverse (2 ^ nat (- j))"
    using j by (simp add: powr_real_of_int)
  finally have "ulp x = 1 / 2 ^ nat (- j)" by (simp add: inverse_eq_divide)
  moreover have "48 \<le> nat (- j)" using j by simp
  ultimately show ?thesis by blast
qed

lemma round_double_ge_int:
  assumes "0 \<le> x" and "x < 32" and "of_int i \<le> x"
  shows "of_int i \<le> round_double x"
proof (cases "x = 0")
  case True
  with assms(3) show ?thesis by (simp add: round_double_def)
next
  case False
  with assms(1) have "0 < x" by simp
  from ulp_below_32 [OF this assms(2)] obtain m where m: "ulp x = 1 / 2 ^ m"
    by blast
  have "of_int (i * 2 ^ m) \<le> x / ulp x"
    using assms(3) by (simp add: m)
  then have "i * 2 ^ m \<le> round_half_even (x / ulp x)"
    by (rule round_half_even_ge)
  then have "real_of_int (i * 2 ^ m) \<le> of_int (round_half_even (x / ulp x))"
    by linarith
  then have "real_of_int i \<le> real_of_int (round_half_even (x / ulp x)) / 2 ^ m"
    by (simp add: field_simps)
  then show ?thesis
    using False by (simp add: round_double_def m)
qed

lemma round_double_le_int:
  assumes "0 \<le> x" and "x < 32" and "x \<le> of_int n"
  shows "round_double x \<le> of_int n"
proof (cases "x = 0")
  case True
  with assms(3) show ?thesis by (simp add: round_double_def)
next
  case False
  with assms(1) have "0 < x" by simp
  from ulp_below_32 [OF this assms(2)] obtain m where m: "ulp x = 1 / 2 ^ m"
    by blast
  have "x / ulp x \<le> of_int (n * 2 ^ m)"
    using assms(3) by (simp add: m)
  then have "round_half_even (x / ulp x) \<le> n * 2 ^ m"
    by (rule round_half_even_le)
  then have "real_of_int (round_half_even (x / ulp x)) \<le> of_int (n * 2 ^ m)"
    by linarith
  then have "real_of_int (round_half_even (x / ulp x)) / 2 ^ m \<le> real_of_int n"
    by (simp add: field_simps)
  then show ?thesis
    using False by (simp add: round_double_def m)
qed

lemma round_double_less_int:
  assumes "0 \<le> x" and "x < 32" and "x < of_int n - 1 / 2 ^ 49"
  shows "round_double x < of_int n"
proof (cases "x = 0")
  case True
  have "(0::real) < 1 / 2 ^ 49" by simp
  with assms(3) True have "(0::real) < of_int n" by linarith
  with True show ?thesis by (simp add: round_double_def)
next
  case False
  with assms(1) have "0 < x" by simp
  from ulp_below_32 [OF this assms(2)] obtain m where m: "ulp x = 1 / 2 ^ m" and m48: "48 \<le> m"
    by blast
  have "(2::real) ^ 48 \<le> 2 ^ m"
    using m48 by (intro power_increasing) simp_all
  then have half: "(1::real) / 2 \<le> 2 ^ m / 2 ^ 49"
    by (simp add: field_simps)
  have "x * 2 ^ m < (of_int n - 1 / 2 ^ 49) * 2 ^ m"
    using assms(3) by simp
  also have "\<dots> = of_int n * 2 ^ m - 2 ^ m / 2 ^ 49"
    by (simp add: algebra_simps)
  also have "\<dots> \<le> of_int (n * 2 ^ m) - 1 / 2"
    using half by simp
  finally have "x / ulp x < of_int (n * 2 ^ m) - 1 / 2"
    by (simp add: m)
  then have "round_half_even (x / ulp x) < n * 2 ^ m"
    by (rule round_half_even_less)
  then have "real_of_int (round_half_even (x / ulp x)) < of_int (n * 2 ^ m)"
    by linarith
  then have "real_of_int (round_half_even (x / ulp x)) / 2 ^ m < real_of_int n"
    by (simp add: field_simps)
  then show ?thesis
    using False by (simp add: round_double_def m)
qed

lemma double_below_1:
  assumes "is_double r" and "0 \<le> r" and "r < 1"
  shows "r \<le> 1 - 1 / 2 ^ 53"
proof (cases "r < 1 / 2")
  case True
  have "(1::real) / 2 \<le> 1 - 1 / 2 ^ 53" by simp
  with True show ?thesis by linarith
next
  case False
  then have lo: "2 powr of_int (- 1) \<le> \<bar>r\<bar>"
    by (simp add: powr_minus)
  have hi: "\<bar>r\<bar> < 2 powr (of_int (- 1) + 1)"
    using assms(2,3) by simp
  have "ulp r = 2 powr of_int (max (- 1) (- 1022) - 52)"
    using lo hi by (rule ulp_binade)
  then have u: "ulp r = 1 / 2 ^ 53"
    by (simp add: powr_minus inverse_eq_divide)
  define n where "n = round_half_even (r / ulp r)"
  from False have "r \<noteq> 0" by auto
  with assms(1) have r: "r = of_int n / 2 ^ 53"
    by (simp add: is_double_def round_double_def n_def u)
  with assms(3) have "real_of_int n < 2 ^ 53"
    by (simp add: field_simps)
  then have "real_of_int n < real_of_int (2 ^ 53)" by simp
  then have "n < 2 ^ 53" by (simp only: of_int_less_iff)
  then have "n \<le> 2 ^ 53 - 1" by simp
  then have "real_of_int n \<le> real_of_int (2 ^ 53 - 1)" by (simp only: of_int_le_iff)
  then have "real_of_int n \<le> 2 ^ 53 - 1" by simp
  then show ?thesis
    by (subst r) (simp add: field_simps)
qed

section \<open>Facts about the operations\<close>

subsection \<open>The status effect\<close>

text \<open>
  The effect changes nothing but the status. Setting the status renders again and runs
  the effect once more, which then returns at its first line: one run settles the state.
\<close>

lemma statusEffect_word [simp]: "word (fst (statusEffect s)) = word s"
  by (simp add: statusEffect_def)

lemma statusEffect_guessedLetters [simp]:
  "guessedLetters (fst (statusEffect s)) = guessedLetters s"
  by (simp add: statusEffect_def)

lemma statusEffect_attempts [simp]: "attempts (fst (statusEffect s)) = attempts s"
  by (simp add: statusEffect_def)

lemma hasWon_statusEffect [simp]: "hasWon (fst (statusEffect s)) = hasWon s"
  by (simp add: hasWon_def)

lemma wrongLetters_statusEffect [simp]: "wrongLetters (fst (statusEffect s)) = wrongLetters s"
  by (simp add: wrongLetters_def)

lemma statusEffect_settled:
  "statusEffect (fst (statusEffect s)) = (fst (statusEffect s), [])"
  by (simp add: statusEffect_def)

lemma statusEffect_status:
  "word s \<noteq> [] \<Longrightarrow> gameStatus s = playing \<Longrightarrow>
   gameStatus (fst (statusEffect s)) =
     (if hasWon s then won else if 6 \<le> attempts s then lost else playing)"
  by (simp add: statusEffect_def MAX_ATTEMPTS_def)

lemma hasWon_no_guess: "guessedLetters s = [] \<Longrightarrow> hasWon s \<longleftrightarrow> word s = []"
  by (cases "word s") (auto simp: hasWon_iff)

lemma statusEffect_fresh:
  assumes "guessedLetters t = []" and "attempts t = 0" and "gameStatus t = playing"
  shows "statusEffect t = (t, [])"
proof (cases "word t")
  case Nil
  then show ?thesis by (simp add: statusEffect_def)
next
  case (Cons c cs)
  then have "\<not> hasWon t" using assms(1) by (simp add: hasWon_no_guess)
  then show ?thesis using assms by (simp add: statusEffect_def MAX_ATTEMPTS_def)
qed

lemma hasWon_mono:
  "word t = word s \<Longrightarrow> set (guessedLetters s) \<subseteq> set (guessedLetters t) \<Longrightarrow>
   hasWon s \<Longrightarrow> hasWon t"
  by (auto simp: hasWon_iff)

lemma hasWon_wrong_guess:
  assumes "\<not> hasWon s" and "\<not> str_includes (word s) letter"
  shows "\<not> hasWon (s\<lparr>guessedLetters := guessedLetters s @ [letter], attempts := n\<rparr>)"
proof -
  from assms(1) obtain c where c: "c \<in> set (word s)" "[c] \<notin> set (guessedLetters s)"
    by (auto simp: hasWon_iff)
  from c(1) assms(2) have "[c] \<noteq> letter"
    by auto
  with c show ?thesis
    by (auto simp: hasWon_iff)
qed

subsection \<open>One guess\<close>

lemma submitGuess_skip:
  "gameStatus s \<noteq> playing \<or> letter \<in> set (guessedLetters s) \<Longrightarrow>
   submitGuess letter s = (s, [])"
  by (simp add: submitGuess_def handleGuess_def)

lemma submitGuess_take:
  "gameStatus s = playing \<Longrightarrow> letter \<notin> set (guessedLetters s) \<Longrightarrow>
   submitGuess letter s =
     statusEffect (s\<lparr>guessedLetters := guessedLetters s @ [letter],
                     attempts := (if \<not> str_includes (word s) letter
                                  then attempts s + 1 else attempts s)\<rparr>)"
  by (simp add: submitGuess_def handleGuess_def)

lemma submitGuess_word [simp]: "word (fst (submitGuess letter s)) = word s"
  by (cases "gameStatus s \<noteq> playing \<or> letter \<in> set (guessedLetters s)")
     (simp_all add: submitGuess_skip submitGuess_take)

lemma submitGuess_guessed_mono:
  "set (guessedLetters s) \<subseteq> set (guessedLetters (fst (submitGuess letter s)))"
  by (cases "gameStatus s \<noteq> playing \<or> letter \<in> set (guessedLetters s)")
     (auto simp: submitGuess_skip submitGuess_take)

lemmas run_defs = submitGuess_def handleGuess_def statusEffect_def hasWon_def uniqueLetters_def
  new_Set_def split_chars_def MAX_ATTEMPTS_def

text \<open>
  Before the first round the word is empty and the status effect returns at its first
  line, whatever was guessed: the status stays \<open>playing\<close>.
\<close>

lemma submitGuess_before_first_round:
  "submitGuess ''A'' initialState =
     (\<lparr>word = [], guessedLetters = [''A''], attempts = 1, gameStatus = playing\<rparr>, [])"
  by (simp add: run_defs initialState_def)

text \<open>
  Letters are compared code unit by code unit: a lower-case letter is not the upper-case
  letter of the word, and counts as a wrong guess.
\<close>

lemma submitGuess_lower_case:
  "submitGuess ''g'' \<lparr>word = ''GOL'', guessedLetters = [], attempts = 0, gameStatus = playing\<rparr> =
     (\<lparr>word = ''GOL'', guessedLetters = [''g''], attempts = 1, gameStatus = playing\<rparr>, [])"
  by (simp add: run_defs)

subsection \<open>A sequence of guesses\<close>

lemma play_Nil [simp]: "play [] s = s"
  by (simp add: play_def)

lemma play_Cons [simp]: "play (l # ls) s = play ls (fst (submitGuess l s))"
  by (simp add: play_def)

lemma play_snoc [simp]: "play (ls @ [l]) s = fst (submitGuess l (play ls s))"
  by (simp add: play_def)

lemma play_word [simp]: "word (play ls s) = word s"
  by (induction ls rule: rev_induct) simp_all

lemma play_terminal: "gameStatus s \<noteq> playing \<Longrightarrow> play ls s = s"
  by (induction ls) (simp_all add: submitGuess_skip)

lemma play_guessed_subset:
  "set (guessedLetters (play ls s)) \<subseteq> set (guessedLetters s) \<union> set ls"
proof (induction ls rule: rev_induct)
  case Nil
  then show ?case by simp
next
  case (snoc l ls)
  have "set (guessedLetters (fst (submitGuess l (play ls s))))
      \<subseteq> set (guessedLetters (play ls s)) \<union> {l}"
    by (cases "gameStatus (play ls s) \<noteq> playing \<or> l \<in> set (guessedLetters (play ls s))")
       (auto simp: submitGuess_skip submitGuess_take)
  with snoc show ?case by auto
qed

lemma play_still_playing:
  "gameStatus (play ls s) = playing \<Longrightarrow> set ls \<subseteq> set (guessedLetters (play ls s))"
proof (induction ls rule: rev_induct)
  case Nil
  then show ?case by simp
next
  case (snoc l ls)
  let ?p = "play ls s"
  have pl: "gameStatus ?p = playing"
  proof (rule ccontr)
    assume "gameStatus ?p \<noteq> playing"
    then have "fst (submitGuess l ?p) = ?p"
      by (simp add: submitGuess_skip)
    with snoc.prems \<open>gameStatus ?p \<noteq> playing\<close> show False
      by simp
  qed
  with snoc.IH have "set ls \<subseteq> set (guessedLetters ?p)"
    by simp
  moreover have "set (guessedLetters ?p) \<subseteq> set (guessedLetters (fst (submitGuess l ?p)))"
    by (rule submitGuess_guessed_mono)
  moreover have "l \<in> set (guessedLetters (fst (submitGuess l ?p)))"
    using pl by (cases "l \<in> set (guessedLetters ?p)")
      (simp_all add: submitGuess_skip submitGuess_take)
  ultimately show ?case
    by auto
qed

subsection \<open>A new round\<close>

lemma distinct_WORDS: "distinct WORDS"
  by (simp add: WORDS_def)

text \<open>
  The product \<open>r * 30\<close> lies below 32, where the doubles are at most \<open>1 / 2 ^ 48\<close>
  apart and every integer is a double: rounding moves the product by less than
  \<open>1 / 2 ^ 49\<close> and never across an integer.
\<close>

lemma randomIndex_inside:
  assumes "i < 30" and "real i / 30 \<le> r" and "r < (real i + 1) / 30 - 1 / 2 ^ 53"
  shows "randomIndex r = int i"
proof -
  let ?x = "r * 30"
  have lo: "real_of_int (int i) \<le> ?x"
    using assms(2) by (simp add: field_simps)
  have "(1::real) / 2 ^ 49 \<le> 30 / 2 ^ 53"
    by simp
  moreover have "?x < real i + 1 - 30 / 2 ^ 53"
    using assms(3) by (simp add: field_simps)
  ultimately have hi: "?x < real_of_int (int i + 1) - 1 / 2 ^ 49"
    by simp
  have x0: "0 \<le> ?x" using lo by simp
  have "real_of_int (int i + 1) \<le> 30" using assms(1) by simp
  with hi have x32: "?x < 32" by simp
  have "real_of_int (int i) \<le> round_double ?x"
    using x0 x32 lo by (rule round_double_ge_int)
  moreover have "round_double ?x < real_of_int (int i + 1)"
    using x0 x32 hi by (rule round_double_less_int)
  ultimately have "\<lfloor>round_double ?x\<rfloor> = int i"
    by (simp add: floor_eq_iff)
  then show ?thesis
    by (simp add: randomIndex_def length_WORDS)
qed

lemma randomIndex_outside:
  assumes "0 \<le> r" and "r < 1" and "randomIndex r = int i"
  shows "real i / 30 - 1 / 2 ^ 53 \<le> r \<and> r < (real i + 1) / 30"
proof -
  let ?x = "r * 30"
  have x0: "0 \<le> ?x" and x32: "?x < 32"
    using assms(1,2) by simp_all
  have fl: "\<lfloor>round_double ?x\<rfloor> = int i"
    using assms(3) by (simp add: randomIndex_def length_WORDS)
  have "r < (real i + 1) / 30"
  proof (rule ccontr)
    assume "\<not> r < (real i + 1) / 30"
    then have "real_of_int (int i + 1) \<le> ?x"
      by (simp add: field_simps)
    with x0 x32 have "real_of_int (int i + 1) \<le> round_double ?x"
      by (rule round_double_ge_int)
    then have "int i + 1 \<le> \<lfloor>round_double ?x\<rfloor>"
      by (simp only: le_floor_iff)
    with fl show False by simp
  qed
  moreover have "real i / 30 - 1 / 2 ^ 53 \<le> r"
  proof (rule ccontr)
    assume "\<not> real i / 30 - 1 / 2 ^ 53 \<le> r"
    then have "?x < real i - 30 / 2 ^ 53"
      by (simp add: field_simps)
    moreover have "(1::real) / 2 ^ 49 \<le> 30 / 2 ^ 53"
      by simp
    ultimately have "?x < real_of_int (int i) - 1 / 2 ^ 49"
      by simp
    with x0 x32 have "round_double ?x < real_of_int (int i)"
      by (rule round_double_less_int)
    then have "\<lfloor>round_double ?x\<rfloor> < int i"
      by (simp only: floor_less_iff)
    with fl show False by simp
  qed
  ultimately show ?thesis by simp
qed

lemma randomIndex_range:
  assumes "is_double r" and "0 \<le> r" and "r < 1"
  shows "0 \<le> randomIndex r \<and> randomIndex r < int (length WORDS)"
proof -
  let ?x = "r * 30"
  from double_below_1 [OF assms] have "?x \<le> 30 - 30 / 2 ^ 53"
    by simp
  moreover have "(1::real) / 2 ^ 49 < 30 / 2 ^ 53"
    by simp
  ultimately have hi: "?x < real_of_int 30 - 1 / 2 ^ 49"
    by simp
  have x0: "0 \<le> ?x" and x32: "?x < 32"
    using assms(2,3) by simp_all
  have "real_of_int 0 \<le> round_double ?x"
    using x0 x32 by (rule round_double_ge_int) (simp add: x0)
  moreover have "round_double ?x < real_of_int 30"
    using x0 x32 hi by (rule round_double_less_int)
  ultimately show ?thesis
    by (simp add: randomIndex_def length_WORDS floor_less_iff le_floor_iff)
qed

text \<open>
  The two draws at which flooring the exact product would give another index: the
  double nearest to 0.3, whose product with 30 rounds up to 9, and a double just below
  16/30, whose product rounds up to 16.
\<close>

lemma randomIndex_near_9: "randomIndex (5404319552844595 / 2 ^ 54) = 9"
proof -
  define x :: real where "x = 5404319552844595 / 2 ^ 54 * 30"
  have "ulp x = 2 powr of_int (max 3 (- 1022) - 52)"
    by (rule ulp_binade) (simp_all add: x_def)
  then have u: "ulp x = 1 / 2 ^ 49"
    by (simp add: powr_minus inverse_eq_divide)
  have q: "x / ulp x = 162129586585337850 / 32"
    unfolding u by (simp add: x_def)
  have "round_half_even (162129586585337850 / 32) = 5066549580791808"
    by (simp add: round_half_even_def)
  then have "round_half_even (x / ulp x) = 5066549580791808"
    by (simp only: q)
  moreover have "x \<noteq> 0"
    by (simp add: x_def)
  ultimately have "round_double x = 9"
    by (simp add: round_double_def u)
  then show ?thesis
    by (simp add: randomIndex_def length_WORDS x_def)
qed

lemma randomIndex_near_16: "randomIndex (4803839602528529 / 2 ^ 53) = 16"
proof -
  define x :: real where "x = 4803839602528529 / 2 ^ 53 * 30"
  have "ulp x = 2 powr of_int (max 3 (- 1022) - 52)"
    by (rule ulp_binade) (simp_all add: x_def)
  then have u: "ulp x = 1 / 2 ^ 49"
    by (simp add: powr_minus inverse_eq_divide)
  have q: "x / ulp x = 144115188075855870 / 16"
    unfolding u by (simp add: x_def)
  have "round_half_even (144115188075855870 / 16) = 9007199254740992"
    by (simp add: round_half_even_def)
  then have "round_half_even (x / ulp x) = 9007199254740992"
    by (simp only: q)
  moreover have "x \<noteq> 0"
    by (simp add: x_def)
  ultimately have "round_double x = 16"
    by (simp add: round_double_def u)
  then show ?thesis
    by (simp add: randomIndex_def length_WORDS x_def)
qed

text \<open>Two doubles used as draws in the examples.\<close>

lemma is_double_7_32: "is_double (7 / 32)"
proof -
  have "ulp (7 / 32) = 2 powr of_int (max (- 3) (- 1022) - 52)"
    by (rule ulp_binade) (simp_all add: powr_minus)
  then have u: "ulp (7 / 32) = 1 / 2 ^ 55"
    by (simp add: powr_minus inverse_eq_divide)
  have "round_double (7 / 32) = 7 / 32"
    by (simp add: round_double_def u round_half_even_def)
  then show ?thesis
    by (simp add: is_double_def)
qed

lemma is_double_15_16: "is_double (15 / 16)"
proof -
  have "ulp (15 / 16) = 2 powr of_int (max (- 1) (- 1022) - 52)"
    by (rule ulp_binade) (simp_all add: powr_minus)
  then have u: "ulp (15 / 16) = 1 / 2 ^ 53"
    by (simp add: powr_minus inverse_eq_divide)
  have "round_double (15 / 16) = 15 / 16"
    by (simp add: round_double_def u round_half_even_def)
  then show ?thesis
    by (simp add: is_double_def)
qed

lemma startNewGame_index:
  assumes "randomIndex r = int i" and "i < length WORDS"
  shows "startNewGame r s =
    Some (s\<lparr>word := WORDS ! i, guessedLetters := [], attempts := 0, gameStatus := playing\<rparr>)"
  using assms by (simp add: startNewGame_def Let_def)

lemma startNewGame_in_WORDS:
  assumes "startNewGame r s = Some t"
  shows "word t \<in> set WORDS \<and> guessedLetters t = [] \<and> attempts t = 0 \<and> gameStatus t = playing"
proof -
  from assms have i: "0 \<le> randomIndex r" "randomIndex r < int (length WORDS)"
    and t: "t = s\<lparr>word := WORDS ! nat (randomIndex r), guessedLetters := [], attempts := 0,
             gameStatus := playing\<rparr>"
    by (auto simp: startNewGame_def Let_def split: if_splits)
  from i have "nat (randomIndex r) < length WORDS" by linarith
  then have "WORDS ! nat (randomIndex r) \<in> set WORDS" by (rule nth_mem)
  then show ?thesis by (simp add: t)
qed

lemma startNewRound_index:
  assumes "randomIndex r = int i" and "i < length WORDS"
  shows "startNewRound r s =
    Some (s\<lparr>word := WORDS ! i, guessedLetters := [], attempts := 0, gameStatus := playing\<rparr>,
          [])"
proof -
  let ?t = "s\<lparr>word := WORDS ! i, guessedLetters := [], attempts := 0, gameStatus := playing\<rparr>"
  have g: "startNewGame r s = Some ?t"
    using assms by (rule startNewGame_index)
  have e: "statusEffect ?t = (?t, [])"
    by (rule statusEffect_fresh) simp_all
  show ?thesis
    by (simp add: startNewRound_def g e)
qed

lemma startNewRound_Some:
  assumes "is_double r" and "0 \<le> r" and "r < 1"
  shows "startNewRound r s =
    Some (s\<lparr>word := WORDS ! nat (randomIndex r), guessedLetters := [], attempts := 0,
             gameStatus := playing\<rparr>, [])"
proof -
  from randomIndex_range [OF assms]
  have "randomIndex r = int (nat (randomIndex r))" and "nat (randomIndex r) < length WORDS"
    by auto
  then show ?thesis
    by (rule startNewRound_index)
qed

lemma startNewRound_result:
  assumes "startNewRound r s = Some (f, out)"
  shows "word f \<in> set WORDS \<and> guessedLetters f = [] \<and> attempts f = 0 \<and>
         gameStatus f = playing \<and> out = []"
proof -
  from assms obtain t where t: "startNewGame r s = Some t" and f: "statusEffect t = (f, out)"
    by (auto simp: startNewRound_def split: option.splits)
  from startNewGame_in_WORDS [OF t] statusEffect_fresh [of t] f show ?thesis
    by auto
qed

text \<open>Two rounds used as examples: draws that select the 7th and the 29th word.\<close>

lemma round_GOL:
  "startNewRound (7/32) initialState =
     Some (\<lparr>word = ''GOL'', guessedLetters = [], attempts = 0, gameStatus = playing\<rparr>, [])"
proof -
  have "randomIndex (7/32) = int 6"
    by (rule randomIndex_inside) simp_all
  then show ?thesis
    by (simp add: startNewRound_index length_WORDS initialState_def) (simp add: WORDS_def)
qed

lemma round_PELE:
  "startNewRound (15/16) initialState =
     Some (\<lparr>word = ''PEL'' @ [CHR 0xC9], guessedLetters = [], attempts = 0,
            gameStatus = playing\<rparr>, [])"
proof -
  have "randomIndex (15/16) = int 28"
    by (rule randomIndex_inside) simp_all
  then show ?thesis
    by (simp add: startNewRound_index length_WORDS initialState_def) (simp add: WORDS_def)
qed

subsection \<open>The invariant holds throughout a round\<close>

lemma roundInvariant_submitGuess:
  assumes "roundInvariant s"
  shows "roundInvariant (fst (submitGuess letter s))"
proof (cases "gameStatus s \<noteq> playing \<or> letter \<in> set (guessedLetters s)")
  case True
  then show ?thesis using assms by (simp add: submitGuess_skip)
next
  case False
  define t where "t = s\<lparr>guessedLetters := guessedLetters s @ [letter],
                attempts := (if \<not> str_includes (word s) letter
                             then attempts s + 1 else attempts s)\<rparr>"
  define u where "u = fst (statusEffect t)"
  from False have pl: "gameStatus s = playing" and new: "letter \<notin> set (guessedLetters s)"
    by simp_all
  from assms pl have nw: "\<not> hasWon s" and lt: "attempts s < MAX_ATTEMPTS"
    by (auto simp: roundInvariant_def split: if_splits)
  from assms have w: "word s \<noteq> []" and d: "distinct (guessedLetters s)"
    and a: "attempts s = length (wrongLetters s)"
    by (simp_all add: roundInvariant_def)
  have eq: "fst (submitGuess letter s) = u"
    using pl new by (simp add: submitGuess_take t_def u_def)
  have tw: "word t = word s" and tp: "gameStatus t = playing"
    and tg: "guessedLetters t = guessedLetters s @ [letter]"
    by (simp_all add: t_def pl)
  have ta: "attempts t = length (wrongLetters t)"
    using a by (simp add: t_def wrongLetters_def)
  have tle: "attempts t \<le> MAX_ATTEMPTS"
    using lt by (simp add: t_def)
  have six: "\<not> hasWon t" if "attempts t = MAX_ATTEMPTS"
  proof -
    from that lt have "\<not> str_includes (word s) letter"
      by (auto simp: t_def split: if_splits)
    with nw have "\<not> hasWon (s\<lparr>guessedLetters := guessedLetters s @ [letter],
        attempts := attempts s + 1\<rparr>)"
      by (rule hasWon_wrong_guess)
    then show ?thesis
      by (simp add: hasWon_iff tw tg)
  qed
  have st: "gameStatus u =
      (if hasWon t then won else if 6 \<le> attempts t then lost else playing)"
    unfolding u_def using w tw tp by (intro statusEffect_status) simp_all
  have "word u \<noteq> []"
    using w tw by (simp add: u_def)
  moreover have "distinct (guessedLetters u)"
    using d new tg by (simp add: u_def)
  moreover have "attempts u = length (wrongLetters u)"
    using ta by (simp add: u_def)
  moreover have "attempts u \<le> MAX_ATTEMPTS"
    using tle by (simp add: u_def)
  moreover have "attempts u = MAX_ATTEMPTS \<longrightarrow> gameStatus u = lost"
    using six st by (simp add: u_def MAX_ATTEMPTS_def)
  moreover have "gameStatus u =
      (if hasWon u then won else if MAX_ATTEMPTS \<le> attempts u then lost else playing)"
    using st by (simp add: u_def MAX_ATTEMPTS_def)
  ultimately show ?thesis
    unfolding eq roundInvariant_def by blast
qed

lemma roundInvariant_play: "roundInvariant s \<Longrightarrow> roundInvariant (play ls s)"
  by (induction ls rule: rev_induct) (simp_all add: roundInvariant_submitGuess)

lemma roundInvariant_fresh:
  assumes "startNewRound r s = Some (f, out)"
  shows "roundInvariant f"
proof -
  from startNewRound_result [OF assms]
  have f: "word f \<in> set WORDS" "guessedLetters f = []" "attempts f = 0" "gameStatus f = playing"
    by simp_all
  from f(1) have w: "word f \<noteq> []" by (rule WORDS_nonempty)
  then have "\<not> hasWon f" using f(2) by (simp add: hasWon_no_guess)
  then show ?thesis
    using f w by (simp add: roundInvariant_def wrongLetters_def MAX_ATTEMPTS_def)
qed

lemma roundInvariant_reached:
  assumes "startNewRound r s0 = Some (f, out)"
  shows "roundInvariant (play letters f)"
  using assms by (intro roundInvariant_play roundInvariant_fresh)

subsection \<open>Guessing letters of the word\<close>

text \<open>A letter of the word, guessed while the round is open and the maximum is not reached.\<close>

lemma submitGuess_right_letter:
  assumes w: "word s \<noteq> []" and a: "attempts s < MAX_ATTEMPTS"
    and st: "gameStatus s = (if hasWon s then won else playing)"
    and l: "letter \<in> set (split_chars (word s))"
  defines "u \<equiv> fst (submitGuess letter s)"
  shows "attempts u = attempts s \<and>
    gameStatus u = (if hasWon u then won else playing) \<and>
    (letter \<in> set (guessedLetters u) \<or> hasWon u)"
proof (cases "gameStatus s \<noteq> playing \<or> letter \<in> set (guessedLetters s)")
  case True
  then have "u = s"
    by (simp add: u_def submitGuess_skip)
  with True st show ?thesis
    by (auto split: if_splits)
next
  case False
  define t where "t = s\<lparr>guessedLetters := guessedLetters s @ [letter],
                attempts := (if \<not> str_includes (word s) letter
                             then attempts s + 1 else attempts s)\<rparr>"
  from l have inc: "str_includes (word s) letter"
    by (auto simp: split_chars_def)
  have tw: "word t = word s" and tp: "gameStatus t = playing"
    and tg: "guessedLetters t = guessedLetters s @ [letter]" and ta: "attempts t = attempts s"
    using False inc by (simp_all add: t_def)
  have u: "u = fst (statusEffect t)"
    using False by (simp add: u_def t_def submitGuess_take)
  have "gameStatus u = (if hasWon t then won else if 6 \<le> attempts t then lost else playing)"
    unfolding u using w tw tp by (intro statusEffect_status) simp_all
  then have "gameStatus u = (if hasWon u then won else playing)"
    using a ta by (simp add: u MAX_ATTEMPTS_def)
  then show ?thesis
    by (simp add: u ta tg)
qed

lemma play_right_letters:
  assumes "word s \<noteq> []" and "attempts s < MAX_ATTEMPTS"
    and "gameStatus s = (if hasWon s then won else playing)"
    and "set letters \<subseteq> set (split_chars (word s))"
  shows "attempts (play letters s) = attempts s \<and>
    gameStatus (play letters s) = (if hasWon (play letters s) then won else playing) \<and>
    (\<forall>l\<in>set letters. l \<in> set (guessedLetters (play letters s)) \<or> hasWon (play letters s))"
  using assms(4)
proof (induction letters rule: rev_induct)
  case Nil
  then show ?case using assms(3) by simp
next
  case (snoc l ls)
  let ?p = "play ls s"
  let ?u = "fst (submitGuess l ?p)"
  from snoc have ih: "attempts ?p = attempts s"
    "gameStatus ?p = (if hasWon ?p then won else playing)"
    "\<forall>k\<in>set ls. k \<in> set (guessedLetters ?p) \<or> hasWon ?p"
    by simp_all
  from snoc.prems have l: "l \<in> set (split_chars (word ?p))"
    by simp
  have step: "attempts ?u = attempts ?p"
    "gameStatus ?u = (if hasWon ?u then won else playing)"
    "l \<in> set (guessedLetters ?u) \<or> hasWon ?u"
    using submitGuess_right_letter [OF _ _ ih(2) l] assms(1,2) ih(1) by simp_all
  have mono: "set (guessedLetters ?p) \<subseteq> set (guessedLetters ?u)"
    by (rule submitGuess_guessed_mono)
  have "k \<in> set (guessedLetters ?u) \<or> hasWon ?u" if "k \<in> set ls" for k
  proof -
    from ih(3) that have "k \<in> set (guessedLetters ?p) \<or> hasWon ?p"
      by blast
    then show ?thesis
      using mono hasWon_mono [of ?u ?p] by auto
  qed
  with step ih(1) show ?case
    by auto
qed

subsection \<open>The displayed word\<close>

text \<open>
  Every element joined by \<open>displayWord\<close> is one code unit long, so the letter of
  position \<open>i\<close> stands at position \<open>2 * i\<close> of the result, with a space after it.
\<close>

lemma length_join_units: "length (join [sp] (map (\<lambda>c. [g c]) cs)) = 2 * length cs - 1"
  by (induction cs rule: induct_list012) auto

lemma join_units_even:
  "i < length cs \<Longrightarrow> join [sp] (map (\<lambda>c. [g c]) cs) ! (2 * i) = g (cs ! i)"
proof (induction cs arbitrary: i rule: induct_list012)
  case 1
  then show ?case by simp
next
  case (2 x)
  then show ?case by simp
next
  case (3 x y zs)
  show ?case
  proof (cases i)
    case 0
    then show ?thesis by simp
  next
    case (Suc j)
    with "3.prems" have "j < length (y # zs)" by simp
    then have "join [sp] (map (\<lambda>c. [g c]) (y # zs)) ! (2 * j) = g ((y # zs) ! j)"
      by (rule "3.IH"(2))
    then show ?thesis using Suc by simp
  qed
qed

lemma join_units_odd:
  "i + 1 < length cs \<Longrightarrow> join [sp] (map (\<lambda>c. [g c]) cs) ! (2 * i + 1) = sp"
proof (induction cs arbitrary: i rule: induct_list012)
  case 1
  then show ?case by simp
next
  case (2 x)
  then show ?case by simp
next
  case (3 x y zs)
  show ?case
  proof (cases i)
    case 0
    then show ?thesis by simp
  next
    case (Suc j)
    with "3.prems" have "j + 1 < length (y # zs)" by simp
    then have "join [sp] (map (\<lambda>c. [g c]) (y # zs)) ! (2 * j + 1) = sp"
      by (rule "3.IH"(2))
    then show ?thesis using Suc by simp
  qed
qed

lemma displayWord_units:
  "displayWord s =
     join '' '' (map (\<lambda>c. [if [c] \<in> set (guessedLetters s) then c else CHR ''_'']) (word s))"
proof -
  have "map (\<lambda>letter. if letter \<in> set (guessedLetters s) then letter else ''_'')
          (split_chars (word s))
      = map (\<lambda>c. [if [c] \<in> set (guessedLetters s) then c else CHR ''_'']) (word s)"
    by (simp add: split_chars_def)
  then show ?thesis
    by (simp add: displayWord_def)
qed

lemma E_acute_not_on_keyboard: "[CHR 0xC9] \<notin> set ALPHABET"
  by (simp add: ALPHABET_def split_chars_def)

section \<open>A guess that is taken\<close>

text \<open>
  Claim C1: in a state with status \<open>playing\<close> whose word is not empty (as the word of
  every round is), \<open>submitGuess\<close> of a letter that is not yet among the guessed letters
  appends the letter to \<open>guessedLetters\<close>, adds one to \<open>attempts\<close> exactly when the
  letter does not occur in the word, and leaves the status derived from the new values:
  \<open>won\<close> when every letter of the word is guessed (checked first), else \<open>lost\<close> when
  \<open>attempts\<close> is at least 6, else \<open>playing\<close>.
\<close>

theorem submitGuess_effective:
  assumes "gameStatus s = playing" and "letter \<notin> set (guessedLetters s)" and "word s \<noteq> []"
    and "submitGuess letter s = (s', out)"
  shows "word s' = word s \<and>
    guessedLetters s' = guessedLetters s @ [letter] \<and>
    attempts s' = (if str_includes (word s) letter then attempts s else attempts s + 1) \<and>
    gameStatus s' =
      (if (\<forall>c\<in>set (word s'). [c] \<in> set (guessedLetters s')) then won
       else if 6 \<le> attempts s' then lost
       else playing)"
proof -
  let ?t = "s\<lparr>guessedLetters := guessedLetters s @ [letter],
                attempts := (if \<not> str_includes (word s) letter
                             then attempts s + 1 else attempts s)\<rparr>"
  have s': "s' = fst (statusEffect ?t)"
    using assms by (simp add: submitGuess_take)
  have "gameStatus s' = (if hasWon ?t then won else if 6 \<le> attempts ?t then lost else playing)"
    unfolding s' using assms(1,3) by (intro statusEffect_status) simp_all
  then show ?thesis
    by (simp add: s' hasWon_iff)
qed

theorem submitGuess_effective_witness:
  "fst (submitGuess ''L'' \<lparr>word = ''GOL'', guessedLetters = [''G'', ''O'', ''X''], attempts = 1, gameStatus = playing\<rparr>)
    = \<lparr>word = ''GOL'', guessedLetters = [''G'', ''O'', ''X'', ''L''], attempts = 1, gameStatus = won\<rparr>"
  using submitGuess_effective [of "\<lparr>word = ''GOL'', guessedLetters = [''G'', ''O'', ''X''], attempts = 1, gameStatus = playing\<rparr>" "''L''"
     "fst (submitGuess ''L'' \<lparr>word = ''GOL'', guessedLetters = [''G'', ''O'', ''X''], attempts = 1, gameStatus = playing\<rparr>)"
     "snd (submitGuess ''L'' \<lparr>word = ''GOL'', guessedLetters = [''G'', ''O'', ''X''], attempts = 1, gameStatus = playing\<rparr>)"]
  by (simp add: run_defs)

section \<open>The bound on wrong attempts\<close>

text \<open>
  Claim C2: in every state that a round reaches by any sequence of guesses, \<open>attempts\<close>
  is at most 6, and it is 6 exactly when the status is \<open>lost\<close> (so the status is
  \<open>lost\<close> as soon as the sixth wrong guess is made). From any state with status
  \<open>lost\<close> a guess changes nothing and no sequence of guesses leaves \<open>lost\<close>, while
  \<open>startNewRound\<close> succeeds and gives status \<open>playing\<close>, for every double that
  \<open>Math.random\<close> can return.
\<close>

theorem wrong_attempts_bounded:
  assumes "startNewRound r s0 = Some (f, out)"
  shows "attempts (play letters f) \<le> 6 \<and>
    (attempts (play letters f) = 6 \<longleftrightarrow> gameStatus (play letters f) = lost) \<and>
    (\<forall>t letter more. gameStatus t = lost \<longrightarrow>
        submitGuess letter t = (t, []) \<and> gameStatus (play more t) = lost) \<and>
    (\<forall>t r'. gameStatus t = lost \<longrightarrow> is_double r' \<longrightarrow> 0 \<le> r' \<longrightarrow> r' < 1 \<longrightarrow>
        (\<exists>f'. startNewRound r' t = Some (f', []) \<and> gameStatus f' = playing))"
proof -
  have inv: "roundInvariant (play letters f)"
    using assms by (rule roundInvariant_reached)
  have a: "attempts (play letters f) \<le> 6"
    using inv by (simp add: roundInvariant_def MAX_ATTEMPTS_def)
  have b: "attempts (play letters f) = 6 \<longleftrightarrow> gameStatus (play letters f) = lost"
    using inv by (auto simp: roundInvariant_def MAX_ATTEMPTS_def split: if_splits)
  have c: "submitGuess letter t = (t, []) \<and> gameStatus (play more t) = lost"
    if "gameStatus t = lost" for t letter more
    using that by (simp add: submitGuess_skip play_terminal)
  have d: "\<exists>f'. startNewRound r' t = Some (f', []) \<and> gameStatus f' = playing"
    if "is_double r'" "0 \<le> r'" "r' < 1" for t r'
    using startNewRound_Some [OF that, of t] by simp
  show ?thesis
    using a b c d by blast
qed

theorem wrong_attempts_bounded_witness:
  "startNewRound (7/32) initialState =
     Some (\<lparr>word = ''GOL'', guessedLetters = [], attempts = 0, gameStatus = playing\<rparr>, []) \<and>
   attempts (play [''Q'', ''W'', ''E'', ''R'', ''T'', ''Y'']
     \<lparr>word = ''GOL'', guessedLetters = [], attempts = 0, gameStatus = playing\<rparr>) = 6 \<and>
   gameStatus (play [''Q'', ''W'', ''E'', ''R'', ''T'', ''Y'']
     \<lparr>word = ''GOL'', guessedLetters = [], attempts = 0, gameStatus = playing\<rparr>) = lost"
proof -
  have a: "attempts (play [''Q'', ''W'', ''E'', ''R'', ''T'', ''Y'']
     \<lparr>word = ''GOL'', guessedLetters = [], attempts = 0, gameStatus = playing\<rparr>) = 6"
    by (simp add: run_defs)
  from wrong_attempts_bounded [OF round_GOL, of "[''Q'', ''W'', ''E'', ''R'', ''T'', ''Y'']"]
  have "attempts (play [''Q'', ''W'', ''E'', ''R'', ''T'', ''Y'']
     \<lparr>word = ''GOL'', guessedLetters = [], attempts = 0, gameStatus = playing\<rparr>) = 6
    \<longleftrightarrow> gameStatus (play [''Q'', ''W'', ''E'', ''R'', ''T'', ''Y'']
     \<lparr>word = ''GOL'', guessedLetters = [], attempts = 0, gameStatus = playing\<rparr>) = lost"
    by blast
  with a round_GOL show ?thesis
    by blast
qed

section \<open>A guess that is ignored\<close>

text \<open>
  Claim C3: for every state and every letter, when the status is not \<open>playing\<close> or
  the letter is already among the guessed letters, \<open>submitGuess\<close> returns the state
  as it was (word, guessed letters, attempts and status), raises no alert, and the
  displayed word stays the same. The function is total: there is no error result.
\<close>

theorem submitGuess_noop:
  assumes "gameStatus s \<noteq> playing \<or> letter \<in> set (guessedLetters s)"
  shows "submitGuess letter s = (s, []) \<and> displayWord (fst (submitGuess letter s)) = displayWord s"
  using assms by (simp add: submitGuess_skip)

theorem submitGuess_noop_witness:
  "''G'' \<in> set (guessedLetters \<lparr>word = ''GOL'', guessedLetters = [''G''], attempts = 0, gameStatus = playing\<rparr>) \<and>
   submitGuess ''G'' \<lparr>word = ''GOL'', guessedLetters = [''G''], attempts = 0, gameStatus = playing\<rparr>
     = (\<lparr>word = ''GOL'', guessedLetters = [''G''], attempts = 0, gameStatus = playing\<rparr>, [])"
  using submitGuess_noop [of "\<lparr>word = ''GOL'', guessedLetters = [''G''], attempts = 0, gameStatus = playing\<rparr>" "''G''"]
  by simp

section \<open>A new round\<close>

text \<open>
  Claim C4: for every double \<open>r\<close> that \<open>Math.random\<close> can return (\<open>0 \<le> r < 1\<close>),
  \<open>startNewRound\<close> succeeds from any state, raises no alert, and gives a state whose
  word is a member of the vocabulary, with no guessed letters, zero attempts and status
  \<open>playing\<close>. The word is selected by \<open>r\<close> alone, on 30 intervals of the same length up
  to rounding: the word of index \<open>i\<close> is selected whenever \<open>r\<close> lies between \<open>i / 30\<close>
  and \<open>(i + 1) / 30 - 1 / 2 ^ 53\<close>, and only when \<open>r\<close> lies between
  \<open>i / 30 - 1 / 2 ^ 53\<close> and \<open>(i + 1) / 30\<close>. How \<open>Math.random\<close> distributes \<open>r\<close> is not
  part of the program.
\<close>

theorem startNewRound_fresh:
  assumes "is_double r" and "0 \<le> r" and "r < 1"
  shows "\<exists>f. startNewRound r s = Some (f, []) \<and>
    word f \<in> set WORDS \<and> guessedLetters f = [] \<and> attempts f = 0 \<and> gameStatus f = playing \<and>
    (\<forall>i<length WORDS.
       (real i / 30 \<le> r \<and> r < (real i + 1) / 30 - 1 / 2 ^ 53 \<longrightarrow> word f = WORDS ! i) \<and>
       (word f = WORDS ! i \<longrightarrow> real i / 30 - 1 / 2 ^ 53 \<le> r \<and> r < (real i + 1) / 30))"
proof -
  let ?t = "s\<lparr>word := WORDS ! nat (randomIndex r), guessedLetters := [], attempts := 0,
             gameStatus := playing\<rparr>"
  have r: "startNewRound r s = Some (?t, [])"
    using assms by (rule startNewRound_Some)
  have rng: "0 \<le> randomIndex r" "nat (randomIndex r) < length WORDS"
    using randomIndex_range [OF assms] by auto
  have sel: "word ?t = WORDS ! i \<longleftrightarrow> randomIndex r = int i" if "i < length WORDS" for i
  proof -
    have "word ?t = WORDS ! i \<longleftrightarrow> nat (randomIndex r) = i"
      using that rng(2) distinct_WORDS by (simp add: nth_eq_iff_index_eq)
    also have "\<dots> \<longleftrightarrow> randomIndex r = int i"
      using rng(1) by auto
    finally show ?thesis .
  qed
  have a: "word ?t = WORDS ! i"
    if "i < length WORDS" "real i / 30 \<le> r" "r < (real i + 1) / 30 - 1 / 2 ^ 53" for i
  proof -
    from that(1) have "i < 30" by (simp add: length_WORDS)
    then have "randomIndex r = int i"
      using that(2,3) by (rule randomIndex_inside)
    then show ?thesis
      using sel [OF that(1)] by simp
  qed
  have b: "real i / 30 - 1 / 2 ^ 53 \<le> r \<and> r < (real i + 1) / 30"
    if "i < length WORDS" "word ?t = WORDS ! i" for i
  proof -
    have "randomIndex r = int i"
      using sel [OF that(1)] that(2) by blast
    with assms(2,3) show ?thesis
      by (rule randomIndex_outside)
  qed
  from startNewRound_result [OF r] a b r show ?thesis
    by auto
qed

theorem startNewRound_fresh_witness:
  "is_double (7/32) \<and> (0::real) \<le> 7/32 \<and> (7/32::real) < 1 \<and>
   (\<exists>f. startNewRound (7/32) initialState = Some (f, []) \<and> word f = ''GOL'' \<and>
      guessedLetters f = [] \<and> attempts f = 0 \<and> gameStatus f = playing)"
proof -
  have h: "(0::real) \<le> 7/32" "(7/32::real) < 1"
    by simp_all
  from startNewRound_fresh [OF is_double_7_32 h, of initialState] obtain f where
    f: "startNewRound (7/32) initialState = Some (f, [])" "guessedLetters f = []"
      "attempts f = 0" "gameStatus f = playing"
    and u: "\<forall>i<length WORDS.
       (real i / 30 \<le> 7/32 \<and> 7/32 < (real i + 1) / 30 - 1 / 2 ^ 53 \<longrightarrow> word f = WORDS ! i) \<and>
       (word f = WORDS ! i \<longrightarrow> real i / 30 - 1 / 2 ^ 53 \<le> 7/32 \<and> 7/32 < (real i + 1) / 30)"
    by blast
  have "(6::nat) < length WORDS"
    by (simp add: length_WORDS)
  with u have "real 6 / 30 \<le> 7/32 \<and> 7/32 < (real 6 + 1) / 30 - 1 / 2 ^ 53 \<longrightarrow> word f = WORDS ! 6"
    by blast
  then have "word f = WORDS ! 6"
    by simp
  then have "word f = ''GOL''"
    by (simp add: WORDS_def)
  with f h is_double_7_32 show ?thesis
    by blast
qed

section \<open>The same guess twice\<close>

text \<open>
  Claim C5: for every state and every letter, a second \<open>submitGuess\<close> of the same
  letter right after the first changes nothing: the state after two calls is the state
  after one (and with it the displayed word), and the alerts of both calls together are
  the alerts of the first.
\<close>

theorem submitGuess_idempotent:
  "fst (submitGuess letter (fst (submitGuess letter s))) = fst (submitGuess letter s) \<and>
   snd (submitGuess letter s) @ snd (submitGuess letter (fst (submitGuess letter s)))
     = snd (submitGuess letter s)"
proof (cases "gameStatus s \<noteq> playing \<or> letter \<in> set (guessedLetters s)")
  case True
  then show ?thesis by (simp add: submitGuess_skip)
next
  case False
  then have "letter \<in> set (guessedLetters (fst (submitGuess letter s)))"
    by (simp add: submitGuess_take)
  then have "submitGuess letter (fst (submitGuess letter s)) = (fst (submitGuess letter s), [])"
    by (simp add: submitGuess_skip)
  then show ?thesis by simp
qed

theorem submitGuess_idempotent_witness:
  "fst (submitGuess ''Q'' (fst (submitGuess ''Q''
      \<lparr>word = ''GOL'', guessedLetters = [], attempts = 5, gameStatus = playing\<rparr>)))
     = \<lparr>word = ''GOL'', guessedLetters = [''Q''], attempts = 6, gameStatus = lost\<rparr> \<and>
   snd (submitGuess ''Q''
      \<lparr>word = ''GOL'', guessedLetters = [], attempts = 5, gameStatus = playing\<rparr>) =
    [CartaoVermelho ''GOL'']"
  using submitGuess_idempotent [of "''Q''" "\<lparr>word = ''GOL'', guessedLetters = [], attempts = 5, gameStatus = playing\<rparr>"]
  by (simp add: run_defs)

section \<open>The view\<close>

text \<open>
  Claim C6: the view is a function of the state alone. In \<open>displayWord\<close> the letters
  of the word stand at the even positions, each shown when it is among the guessed
  letters and replaced by the placeholder \<open>_\<close> otherwise, with single spaces between
  them. \<open>correctLetters\<close> and \<open>wrongLetters\<close> are subsequences of the guessed letters
  that split them in two: those that occur in the word and those that do not. For the
  word GOL the display after G is \<open>G _ _\<close>, after G, O it is \<open>G O _\<close>, and after
  G, O, X, L the status is \<open>won\<close>, the display \<open>G O L\<close> and \<open>attempts\<close> is 1.
\<close>

theorem displayWord_view:
  "length (displayWord s) = 2 * length (word s) - 1 \<and>
   (\<forall>i<length (word s). displayWord s ! (2 * i) =
      (if [word s ! i] \<in> set (guessedLetters s) then word s ! i else CHR ''_'')) \<and>
   (\<forall>i. i + 1 < length (word s) \<longrightarrow> displayWord s ! (2 * i + 1) = CHR '' '') \<and>
   mset (correctLetters s) + mset (wrongLetters s) = mset (guessedLetters s) \<and>
   subseq (correctLetters s) (guessedLetters s) \<and>
   subseq (wrongLetters s) (guessedLetters s) \<and>
   set (correctLetters s) = {l \<in> set (guessedLetters s). str_includes (word s) l} \<and>
   set (wrongLetters s) = {l \<in> set (guessedLetters s). \<not> str_includes (word s) l} \<and>
   displayWord (play [''G'']
     \<lparr>word = ''GOL'', guessedLetters = [], attempts = 0, gameStatus = playing\<rparr>) = ''G _ _'' \<and>
   displayWord (play [''G'', ''O'']
     \<lparr>word = ''GOL'', guessedLetters = [], attempts = 0, gameStatus = playing\<rparr>) = ''G O _'' \<and>
   play [''G'', ''O'', ''X'', ''L'']
     \<lparr>word = ''GOL'', guessedLetters = [], attempts = 0, gameStatus = playing\<rparr>
     = \<lparr>word = ''GOL'', guessedLetters = [''G'', ''O'', ''X'', ''L''], attempts = 1,
        gameStatus = won\<rparr> \<and>
   displayWord (play [''G'', ''O'', ''X'', ''L'']
     \<lparr>word = ''GOL'', guessedLetters = [], attempts = 0, gameStatus = playing\<rparr>) = ''G O L''"
proof -
  have 1: "length (displayWord s) = 2 * length (word s) - 1"
    by (simp only: displayWord_units length_join_units)
  have 2: "displayWord s ! (2 * i) =
      (if [word s ! i] \<in> set (guessedLetters s) then word s ! i else CHR ''_'')"
    if "i < length (word s)" for i
    using that by (simp only: displayWord_units join_units_even)
  have 3: "displayWord s ! (2 * i + 1) = CHR '' ''" if "i + 1 < length (word s)" for i
    using that by (simp only: displayWord_units join_units_odd)
  have 4: "mset (correctLetters s) + mset (wrongLetters s) = mset (guessedLetters s)"
    by (simp add: correctLetters_def wrongLetters_def)
  have 5: "subseq (correctLetters s) (guessedLetters s)"
    "subseq (wrongLetters s) (guessedLetters s)"
    by (simp_all add: correctLetters_def wrongLetters_def)
  have 6: "set (correctLetters s) = {l \<in> set (guessedLetters s). str_includes (word s) l}"
    "set (wrongLetters s) = {l \<in> set (guessedLetters s). \<not> str_includes (word s) l}"
    by (simp_all add: correctLetters_def wrongLetters_def)
  have 7: "displayWord (play [''G'']
     \<lparr>word = ''GOL'', guessedLetters = [], attempts = 0, gameStatus = playing\<rparr>) = ''G _ _''"
    by (simp add: run_defs displayWord_def)
  have 8: "displayWord (play [''G'', ''O'']
     \<lparr>word = ''GOL'', guessedLetters = [], attempts = 0, gameStatus = playing\<rparr>) = ''G O _''"
    by (simp add: run_defs displayWord_def)
  have 9: "play [''G'', ''O'', ''X'', ''L'']
     \<lparr>word = ''GOL'', guessedLetters = [], attempts = 0, gameStatus = playing\<rparr>
     = \<lparr>word = ''GOL'', guessedLetters = [''G'', ''O'', ''X'', ''L''], attempts = 1,
        gameStatus = won\<rparr>"
    by (simp add: run_defs)
  have 10: "displayWord (play [''G'', ''O'', ''X'', ''L'']
     \<lparr>word = ''GOL'', guessedLetters = [], attempts = 0, gameStatus = playing\<rparr>) = ''G O L''"
    unfolding 9 by (simp add: displayWord_def split_chars_def)
  from 1 2 3 4 5 6 7 8 9 10 show ?thesis
    by blast
qed

theorem displayWord_view_witness:
  "length (displayWord \<lparr>word = ''TITE'', guessedLetters = [''T'', ''A''], attempts = 1,
      gameStatus = playing\<rparr>) = 7 \<and>
   displayWord \<lparr>word = ''TITE'', guessedLetters = [''T'', ''A''], attempts = 1,
      gameStatus = playing\<rparr> ! 4 = CHR ''T'' \<and>
   displayWord \<lparr>word = ''TITE'', guessedLetters = [''T'', ''A''], attempts = 1,
      gameStatus = playing\<rparr> ! 5 = CHR '' '' \<and>
   displayWord \<lparr>word = ''TITE'', guessedLetters = [''T'', ''A''], attempts = 1,
      gameStatus = playing\<rparr> ! 6 = CHR ''_''"
proof -
  let ?s = "\<lparr>word = ''TITE'', guessedLetters = [''T'', ''A''], attempts = 1,
      gameStatus = playing\<rparr>"
  from displayWord_view [of ?s]
  have l: "length (displayWord ?s) = 2 * length (word ?s) - 1"
    and e: "\<forall>i<length (word ?s). displayWord ?s ! (2 * i) =
      (if [word ?s ! i] \<in> set (guessedLetters ?s) then word ?s ! i else CHR ''_'')"
    and o: "\<forall>i. i + 1 < length (word ?s) \<longrightarrow> displayWord ?s ! (2 * i + 1) = CHR '' ''"
    by blast+
  from l have "length (displayWord ?s) = 7"
    by simp
  moreover have "displayWord ?s ! 4 = CHR ''T''"
    using e [rule_format, of 2] by simp
  moreover have "displayWord ?s ! 5 = CHR '' ''"
    using o [rule_format, of 2] by simp
  moreover have "displayWord ?s ! 6 = CHR ''_''"
    using e [rule_format, of 3] by simp
  ultimately show ?thesis
    by blast
qed

section \<open>Guessing every letter of the word\<close>

text \<open>
  Claim C7, as stated: submitting every letter of the word, in any order and in any
  case form of each letter, ends with status \<open>won\<close>. The code does not normalise the
  case of a guess: in a round with the word GOL the lower-case letters g, o, l are
  three wrong guesses and the status stays \<open>playing\<close>.
\<close>

theorem lower_case_letters_counterexample:
  "''GOL'' \<in> set WORDS \<and>
   startNewRound (7/32) initialState =
     Some (\<lparr>word = ''GOL'', guessedLetters = [], attempts = 0, gameStatus = playing\<rparr>, []) \<and>
   play [''g'', ''o'', ''l'']
     \<lparr>word = ''GOL'', guessedLetters = [], attempts = 0, gameStatus = playing\<rparr>
     = \<lparr>word = ''GOL'', guessedLetters = [''g'', ''o'', ''l''], attempts = 3,
        gameStatus = playing\<rparr> \<and>
   gameStatus (play [''g'', ''o'', ''l'']
     \<lparr>word = ''GOL'', guessedLetters = [], attempts = 0, gameStatus = playing\<rparr>) \<noteq> won"
proof -
  have w: "''GOL'' \<in> set WORDS"
    by (simp add: WORDS_def)
  have p: "play [''g'', ''o'', ''l'']
     \<lparr>word = ''GOL'', guessedLetters = [], attempts = 0, gameStatus = playing\<rparr>
     = \<lparr>word = ''GOL'', guessedLetters = [''g'', ''o'', ''l''], attempts = 3,
        gameStatus = playing\<rparr>"
    by (simp add: run_defs)
  show ?thesis
    unfolding p using w round_GOL by simp
qed

text \<open>
  Claim C7, amended: in a round (whose word is always a word of the vocabulary), from
  any state reached with status \<open>playing\<close>, whatever was guessed before and however
  many wrong attempts were made (fewer than 6, since the status is \<open>playing\<close>),
  submitting the letters of the word exactly as they stand in the word (in upper case:
  the code compares letters as they are), in any order and with or without
  repetitions, ends with status \<open>won\<close> and adds no wrong attempt.
\<close>

theorem all_letters_win:
  assumes "startNewRound r s0 = Some (f, out)"
    and "s = play before f"
    and "gameStatus s = playing"
    and "set letters = set (split_chars (word s))"
  shows "word s \<in> set WORDS \<and> attempts s < 6 \<and>
    gameStatus (play letters s) = won \<and> attempts (play letters s) = attempts s"
proof -
  have inv: "roundInvariant s"
    using assms(1,2) by (simp add: roundInvariant_reached)
  have w: "word s \<in> set WORDS"
    using startNewRound_result [OF assms(1)] assms(2) by simp
  from inv assms(3) have a: "attempts s < MAX_ATTEMPTS"
    and st: "gameStatus s = (if hasWon s then won else playing)"
    by (auto simp: roundInvariant_def split: if_splits)
  have sub: "set letters \<subseteq> set (split_chars (word s))"
    using assms(4) by simp
  from play_right_letters [OF WORDS_nonempty [OF w] a st sub]
  have p: "attempts (play letters s) = attempts s"
    "gameStatus (play letters s) = (if hasWon (play letters s) then won else playing)"
    "\<forall>l\<in>set letters. l \<in> set (guessedLetters (play letters s)) \<or> hasWon (play letters s)"
    by simp_all
  have "hasWon (play letters s)"
  proof (rule ccontr)
    assume n: "\<not> hasWon (play letters s)"
    with p(3) assms(4) have "\<forall>c\<in>set (word s). [c] \<in> set (guessedLetters (play letters s))"
      by (auto simp: split_chars_def)
    with n show False
      by (simp add: hasWon_iff)
  qed
  with p w a show ?thesis
    by (simp add: MAX_ATTEMPTS_def)
qed

theorem all_letters_win_witness:
  "startNewRound (7/32) initialState =
     Some (\<lparr>word = ''GOL'', guessedLetters = [], attempts = 0, gameStatus = playing\<rparr>, []) \<and>
   gameStatus (play [''Q'', ''W'', ''E'', ''R'', ''T'']
     \<lparr>word = ''GOL'', guessedLetters = [], attempts = 0, gameStatus = playing\<rparr>) = playing \<and>
   attempts (play [''Q'', ''W'', ''E'', ''R'', ''T'']
     \<lparr>word = ''GOL'', guessedLetters = [], attempts = 0, gameStatus = playing\<rparr>) = 5 \<and>
   set [''L'', ''O'', ''G''] = set (split_chars ''GOL'') \<and>
   gameStatus (play [''L'', ''O'', ''G''] (play [''Q'', ''W'', ''E'', ''R'', ''T'']
     \<lparr>word = ''GOL'', guessedLetters = [], attempts = 0, gameStatus = playing\<rparr>)) = won"
proof -
  let ?s = "play [''Q'', ''W'', ''E'', ''R'', ''T'']
     \<lparr>word = ''GOL'', guessedLetters = [], attempts = 0, gameStatus = playing\<rparr>"
  have p: "gameStatus ?s = playing" and a: "attempts ?s = 5"
    by (simp_all add: run_defs)
  have l: "set [''L'', ''O'', ''G''] = set (split_chars (word ?s))"
    by (auto simp: split_chars_def)
  from all_letters_win [OF round_GOL refl p l]
  have "gameStatus (play [''L'', ''O'', ''G''] ?s) = won"
    by simp
  with round_GOL p a l show ?thesis
    by simp
qed

section \<open>The vocabulary and the bound\<close>

text \<open>
  Claim C8, as stated: the vocabulary holds exactly 29 words and the maximum of wrong
  attempts is 6. The array \<open>WORDS\<close> of the source has 30 entries, so the statement fails.
\<close>

theorem vocabulary_29_counterexample: "\<not> (length WORDS = 29 \<and> MAX_ATTEMPTS = 6)"
  by (simp add: WORDS_def)

text \<open>
  Claim C8, amended: the vocabulary from which a round draws its word holds exactly 30
  words, no two of them equal, and the maximum of wrong attempts is 6.
\<close>

theorem vocabulary_30_words:
  "length WORDS = 30 \<and> distinct WORDS \<and> card (set WORDS) = 30 \<and> MAX_ATTEMPTS = 6"
proof -
  have d: "distinct WORDS"
    by (simp add: WORDS_def)
  have "card (set WORDS) = length WORDS"
    using d by (rule distinct_card)
  then show ?thesis
    using d by (simp add: length_WORDS MAX_ATTEMPTS_def)
qed

section \<open>Guessed letters and wrong attempts\<close>

text \<open>
  Claim C9: in every state that a round reaches by any sequence of guesses, no letter
  occurs twice among the guessed letters, and \<open>attempts\<close> is the number of guessed
  letters that do not occur in the word: the length of \<open>wrongLetters\<close>, and the number
  of elements of the set of those letters.
\<close>

theorem guessed_letters_distinct:
  assumes "startNewRound r s0 = Some (f, out)" and "s = play letters f"
  shows "distinct (guessedLetters s) \<and>
    attempts s = length (wrongLetters s) \<and>
    attempts s = card {l \<in> set (guessedLetters s). \<not> str_includes (word s) l}"
proof -
  have inv: "roundInvariant s"
    using assms by (simp add: roundInvariant_reached)
  then have d: "distinct (guessedLetters s)" and a: "attempts s = length (wrongLetters s)"
    by (simp_all add: roundInvariant_def)
  from d have "distinct (wrongLetters s)"
    by (simp add: wrongLetters_def)
  then have "length (wrongLetters s) = card (set (wrongLetters s))"
    by (simp add: distinct_card)
  also have "set (wrongLetters s) = {l \<in> set (guessedLetters s). \<not> str_includes (word s) l}"
    by (simp add: wrongLetters_def)
  finally show ?thesis
    using d a by simp
qed

theorem guessed_letters_distinct_witness:
  "startNewRound (7/32) initialState =
     Some (\<lparr>word = ''GOL'', guessedLetters = [], attempts = 0, gameStatus = playing\<rparr>, []) \<and>
   guessedLetters (play [''G'', ''X'', ''G'', ''X'', ''O'']
     \<lparr>word = ''GOL'', guessedLetters = [], attempts = 0, gameStatus = playing\<rparr>)
     = [''G'', ''X'', ''O''] \<and>
   distinct (guessedLetters (play [''G'', ''X'', ''G'', ''X'', ''O'']
     \<lparr>word = ''GOL'', guessedLetters = [], attempts = 0, gameStatus = playing\<rparr>)) \<and>
   attempts (play [''G'', ''X'', ''G'', ''X'', ''O'']
     \<lparr>word = ''GOL'', guessedLetters = [], attempts = 0, gameStatus = playing\<rparr>) = 1 \<and>
   wrongLetters (play [''G'', ''X'', ''G'', ''X'', ''O'']
     \<lparr>word = ''GOL'', guessedLetters = [], attempts = 0, gameStatus = playing\<rparr>) = [''X'']"
  using guessed_letters_distinct [OF round_GOL refl, of "[''G'', ''X'', ''G'', ''X'', ''O'']"]
    round_GOL
  by (simp add: run_defs wrongLetters_def)

section \<open>A word the keyboard cannot spell\<close>

text \<open>
  Claim C10: the vocabulary holds a word, PEL followed by U+00C9, whose last letter is
  not a key of the keyboard. In a round with that word no sequence of keys of the
  keyboard ever gives status \<open>won\<close>, and once every key has been pressed the status
  is \<open>lost\<close>: through the keyboard the round can only be lost.
\<close>

theorem keyboard_never_wins_PELE:
  assumes "startNewRound r s0 = Some (f, out)"
    and "word f = ''PEL'' @ [CHR 0xC9]"
    and "set letters \<subseteq> set ALPHABET"
  shows "''PEL'' @ [CHR 0xC9] \<in> set WORDS \<and>
    [CHR 0xC9] \<notin> set ALPHABET \<and>
    gameStatus (play letters f) \<noteq> won \<and>
    (set letters = set ALPHABET \<longrightarrow> gameStatus (play letters f) = lost)"
proof -
  let ?s = "play letters f"
  have f: "guessedLetters f = []"
    using startNewRound_result [OF assms(1)] by simp
  have inv: "roundInvariant ?s"
    using assms(1) by (rule roundInvariant_reached)
  have "set (guessedLetters ?s) \<subseteq> set ALPHABET"
    using play_guessed_subset [of letters f] f assms(3) by auto
  then have "[CHR 0xC9] \<notin> set (guessedLetters ?s)"
    using E_acute_not_on_keyboard by auto
  then have nw: "\<not> hasWon ?s"
    by (simp add: hasWon_iff assms(2))
  then have 1: "gameStatus ?s \<noteq> won"
    using inv by (simp add: roundInvariant_def)
  have 2: "gameStatus ?s = lost" if all: "set letters = set ALPHABET"
  proof (rule ccontr)
    assume "gameStatus ?s \<noteq> lost"
    with 1 have pl: "gameStatus ?s = playing"
      by (cases "gameStatus ?s") simp_all
    then have "set ALPHABET \<subseteq> set (guessedLetters ?s)"
      using play_still_playing [of letters f] all by simp
    then have "set [''A'', ''B'', ''C'', ''D'', ''F'', ''G''] \<subseteq> set (wrongLetters ?s)"
      by (auto simp: wrongLetters_def assms(2) ALPHABET_def split_chars_def)
    then have "card (set [''A'', ''B'', ''C'', ''D'', ''F'', ''G'']) \<le> card (set (wrongLetters ?s))"
      by (intro card_mono) simp_all
    moreover have "card (set [''A'', ''B'', ''C'', ''D'', ''F'', ''G'']) = 6"
      by simp
    moreover have "card (set (wrongLetters ?s)) \<le> length (wrongLetters ?s)"
      by (rule card_length)
    ultimately have "6 \<le> attempts ?s"
      using inv by (simp add: roundInvariant_def)
    with inv pl show False
      by (auto simp: roundInvariant_def MAX_ATTEMPTS_def split: if_splits)
  qed
  have "''PEL'' @ [CHR 0xC9] \<in> set WORDS"
    by (simp add: WORDS_def)
  with 1 2 E_acute_not_on_keyboard show ?thesis
    by blast
qed

theorem keyboard_never_wins_PELE_witness:
  "startNewRound (15/16) initialState =
     Some (\<lparr>word = ''PEL'' @ [CHR 0xC9], guessedLetters = [], attempts = 0,
            gameStatus = playing\<rparr>, []) \<and>
   set [''P'', ''E'', ''L''] \<subseteq> set ALPHABET \<and>
   gameStatus (play [''P'', ''E'', ''L'']
     \<lparr>word = ''PEL'' @ [CHR 0xC9], guessedLetters = [], attempts = 0,
        gameStatus = playing\<rparr>) \<noteq> won \<and>
   displayWord (play [''P'', ''E'', ''L'']
     \<lparr>word = ''PEL'' @ [CHR 0xC9], guessedLetters = [], attempts = 0,
        gameStatus = playing\<rparr>) = ''P E L _''"
proof -
  have k: "set [''P'', ''E'', ''L''] \<subseteq> set ALPHABET"
    by (simp add: ALPHABET_def split_chars_def)
  have d: "displayWord (play [''P'', ''E'', ''L'']
     \<lparr>word = ''PEL'' @ [CHR 0xC9], guessedLetters = [], attempts = 0,
        gameStatus = playing\<rparr>) = ''P E L _''"
    by (simp add: run_defs displayWord_def)
  from keyboard_never_wins_PELE [OF round_PELE _ k] round_PELE k d show ?thesis
    by simp
qed

end
